theory Spec2Isabelle
  imports Complex_Main "HOL-Library.Sublist"
begin

section \<open>Python strings\<close>

text \<open>
  A Python \<open>str\<close> is a sequence of code points. The model is \<open>string\<close>, a list of
  \<open>char\<close>, one \<open>char\<close> per code point: it covers the transcripts whose code points are
  below 256 (Latin-1). On that range \<open>str.isspace\<close>, \<open>str.lower\<close> and the regular
  expression escape \<open>\s\<close> are written out as Python 3 defines them.
\<close>

definition code :: "char \<Rightarrow> nat" where
  "code c = of_char c"

definition in_range :: "char \<Rightarrow> char \<Rightarrow> char \<Rightarrow> bool" where
  "in_range lo hi c \<longleftrightarrow> code lo \<le> code c \<and> code c \<le> code hi"

text \<open>
  \<open>str.isspace\<close> on one code point: tab, line feed, vertical tab, form feed, carriage
  return, the separators 0x1C to 0x1F, space, next line (0x85) and no-break space (0xA0).
\<close>

definition py_isspace :: "char \<Rightarrow> bool" where
  "py_isspace c \<longleftrightarrow>
     in_range (CHR 0x09) (CHR 0x0D) c \<or> in_range (CHR 0x1C) (CHR 0x20) c \<or>
     c = CHR 0x85 \<or> c = CHR 0xA0"

text \<open>
  \<open>str.lower\<close> on one code point: the letters A to Z and the Latin-1 capitals 0xC0 to
  0xDE (the multiplication sign 0xD7 apart) move up by 32; every other code point below
  256 stays.
\<close>

definition py_isupper :: "char \<Rightarrow> bool" where
  "py_isupper c \<longleftrightarrow>
     in_range CHR ''A'' CHR ''Z'' c \<or> (in_range (CHR 0xC0) (CHR 0xDE) c \<and> c \<noteq> CHR 0xD7)"

definition lower_char :: "char \<Rightarrow> char" where
  "lower_char c = (if py_isupper c then char_of (code c + 32) else c)"

definition py_lower :: "string \<Rightarrow> string" where
  "py_lower s = map lower_char s"

text \<open>\<open>s.strip()\<close>: whitespace removed at both ends.\<close>

definition py_strip :: "string \<Rightarrow> string" where
  "py_strip s = rev (dropWhile py_isspace (rev (dropWhile py_isspace s)))"

text \<open>\<open>s.replace(a, b)\<close> for one-character \<open>a\<close> and \<open>b\<close>.\<close>

definition py_replace :: "char \<Rightarrow> char \<Rightarrow> string \<Rightarrow> string" where
  "py_replace a b s = map (\<lambda>c. if c = a then b else c) s"

text \<open>
  \<open>s.split(sep)\<close> for a one-character separator: the pieces between the separators,
  empty pieces kept, so a string with \<open>n\<close> separators has \<open>n + 1\<close> pieces.
\<close>

fun py_split :: "char \<Rightarrow> string \<Rightarrow> string list" where
  "py_split sep [] = [[]]"
| "py_split sep (c # cs) =
     (if c = sep then [] # py_split sep cs
      else (case py_split sep cs of
              [] \<Rightarrow> [[c]]
            | w # ws \<Rightarrow> (c # w) # ws))"

text \<open>\<open>needle in hay\<close> on strings: \<open>needle\<close> occurs as a contiguous piece of \<open>hay\<close>.\<close>

fun py_in :: "string \<Rightarrow> string \<Rightarrow> bool" where
  "py_in needle [] = (needle = [])"
| "py_in needle (c # cs) = (prefix needle (c # cs) \<or> py_in needle cs)"

section \<open>Regular expressions\<close>

text \<open>
  The part of Python's \<open>re\<close> that the four patterns of \<open>extract_actions\<close> use: literals,
  bracket classes, \<open>\s\<close>, \<open>.\<close>, bounded and unbounded repetition of a class (greedy or
  lazy), sequence, alternation, a greedy optional part, one capturing group and \<open>$\<close>.
\<close>

datatype citem = Rng char char | One char | Space

datatype cls = Set "citem list" | Dot

fun in_citem :: "citem \<Rightarrow> char \<Rightarrow> bool" where
  "in_citem (Rng lo hi) c = in_range lo hi c"
| "in_citem (One d) c = (c = d)"
| "in_citem Space c = py_isspace c"

text \<open>Without \<open>re.DOTALL\<close> the dot matches every character but the line feed.\<close>

fun in_cls :: "cls \<Rightarrow> char \<Rightarrow> bool" where
  "in_cls (Set items) c = list_ex (\<lambda>i. in_citem i c) items"
| "in_cls Dot c = (c \<noteq> CHR 0x0A)"

datatype regex =
    Lit string
  | Cls cls
  | Rep cls nat "nat option" bool
  | Cat regex regex
  | Alt regex regex
  | Opt regex
  | Grp regex
  | Eos

text \<open>
  A literal under \<open>re.IGNORECASE\<close> matches a character with the same lower-case form.
  The one pattern searched with that flag has no bracket class, so the flag reaches
  literals only.
\<close>

definition lit_char :: "bool \<Rightarrow> char \<Rightarrow> char \<Rightarrow> bool" where
  "lit_char ic p c \<longleftrightarrow> (if ic then lower_char c = lower_char p else c = p)"

fun lit_prefix :: "bool \<Rightarrow> string \<Rightarrow> string \<Rightarrow> bool" where
  "lit_prefix ic [] s = True"
| "lit_prefix ic (p # ps) [] = False"
| "lit_prefix ic (p # ps) (c # cs) = (lit_char ic p c \<and> lit_prefix ic ps cs)"

text \<open>
  How many characters a repetition of a class can take at most: the run of class
  members at the front of the input, cut at the upper bound when there is one.
\<close>

definition max_rep :: "cls \<Rightarrow> nat option \<Rightarrow> string \<Rightarrow> nat" where
  "max_rep k hi s =
     (let n = length (takeWhile (in_cls k) s)
      in case hi of None \<Rightarrow> n | Some h \<Rightarrow> min h n)"

text \<open>
  The backtracking matcher. \<open>run ic r g s\<close> lists, in the order in which the engine
  tries them, every way \<open>r\<close> matches at the front of \<open>s\<close>: the text of group 1 so far
  and the input left. A greedy repetition tries the longest run first, a lazy one the
  shortest; an alternation tries its left branch first; an optional part is tried
  before it is skipped. \<open>$\<close> matches at the end of the input and before a line feed
  that ends it.
\<close>

fun run :: "bool \<Rightarrow> regex \<Rightarrow> string option \<Rightarrow> string \<Rightarrow> (string option \<times> string) list" where
  "run ic (Lit p) g s = (if lit_prefix ic p s then [(g, drop (length p) s)] else [])"
| "run ic (Cls k) g s =
     (case s of [] \<Rightarrow> [] | c # cs \<Rightarrow> if in_cls k c then [(g, cs)] else [])"
| "run ic (Rep k lo hi greedy) g s =
     (let counts = [lo ..< Suc (max_rep k hi s)]
      in map (\<lambda>i. (g, drop i s)) (if greedy then rev counts else counts))"
| "run ic (Cat a b) g s = concat (map (\<lambda>(g', s'). run ic b g' s') (run ic a g s))"
| "run ic (Alt a b) g s = run ic a g s @ run ic b g s"
| "run ic (Opt a) g s = run ic a g s @ [(g, s)]"
| "run ic (Grp a) g s =
     map (\<lambda>(g', s'). (Some (take (length s - length s') s), s')) (run ic a g s)"
| "run ic Eos g s = (if s = [] \<or> s = [CHR 0x0A] then [(g, s)] else [])"

text \<open>
  A match object, as far as the program reads it: \<open>group(1)\<close>, which is \<open>None\<close> when
  group 1 took no part in the match.
\<close>

datatype match = Match (group1: "string option")

text \<open>
  \<open>re.search(pattern, s, flags)\<close>: the first way to match at the leftmost position
  that has one.
\<close>

fun re_search :: "regex \<Rightarrow> bool \<Rightarrow> string \<Rightarrow> match option" where
  "re_search r ic [] =
     (case run ic r None [] of [] \<Rightarrow> None | (g, _) # _ \<Rightarrow> Some (Match g))"
| "re_search r ic (c # cs) =
     (case run ic r None (c # cs) of
        [] \<Rightarrow> re_search r ic cs
      | (g, _) # _ \<Rightarrow> Some (Match g))"

section \<open>The patterns of \<open>extract_actions\<close>\<close>

definition letters_lower :: citem where
  "letters_lower = Rng CHR ''a'' CHR ''z''"

definition letters_upper :: citem where
  "letters_upper = Rng CHR ''A'' CHR ''Z''"

definition digits :: citem where
  "digits = Rng CHR ''0'' CHR ''9''"

text \<open>\<open>\s+\<close>\<close>

definition spaces :: regex where
  "spaces = Rep (Set [Space]) 1 None True"

text \<open>\<open>([a-zA-Z0-9._%+-]+@[a-zA-Z0-9.-]+\.[a-zA-Z]{2,})\<close>\<close>

definition email_re :: regex where
  "email_re =
     Grp (Cat (Rep (Set [letters_lower, letters_upper, digits, One CHR ''.'', One CHR ''_'',
                         One CHR ''%'', One CHR ''+'', One CHR ''-'']) 1 None True)
         (Cat (Lit ''@'')
         (Cat (Rep (Set [letters_lower, letters_upper, digits, One CHR ''.'', One CHR ''-''])
                 1 None True)
         (Cat (Lit ''.'')
              (Rep (Set [letters_lower, letters_upper]) 2 None True)))))"

text \<open>\<open>([A-Z][a-z]+(?:\s+[A-Z][a-z]+)?)\<close>, the group shared by the Call and Meeting patterns.\<close>

definition word_re :: regex where
  "word_re = Cat (Cls (Set [letters_upper])) (Rep (Set [letters_lower]) 1 None True)"

definition name_re :: regex where
  "name_re = Grp (Cat word_re (Opt (Cat spaces word_re)))"

text \<open>\<open>(?:call|phone|ring)\s+([A-Z][a-z]+(?:\s+[A-Z][a-z]+)?)\<close>\<close>

definition call_re :: regex where
  "call_re =
     Cat (Alt (Lit ''call'') (Alt (Lit ''phone'') (Lit ''ring'')))
    (Cat spaces name_re)"

text \<open>\<open>(?:meet(?:ing)?|schedule)\s+(?:with\s+)?([A-Z][a-z]+(?:\s+[A-Z][a-z]+)?)\<close>\<close>

definition meeting_re :: regex where
  "meeting_re =
     Cat (Alt (Cat (Lit ''meet'') (Opt (Lit ''ing''))) (Lit ''schedule''))
    (Cat spaces
    (Cat (Opt (Cat (Lit ''with'') spaces)) name_re))"

text \<open>\<open>(?:need to|should|must|have to)\s+(.{10,60}?)(?:\.|$)\<close>\<close>

definition task_re :: regex where
  "task_re =
     Cat (Alt (Lit ''need to'') (Alt (Lit ''should'') (Alt (Lit ''must'') (Lit ''have to''))))
    (Cat spaces
    (Cat (Grp (Rep Dot 10 (Some 60) False))
         (Alt (Lit ''.'') Eos)))"

section \<open>\<open>extract_actions\<close>\<close>

text \<open>The dictionary that \<open>extract_actions\<close> builds for one action.\<close>

record action =
  action_type :: string
  title :: string
  description :: string
  metadata :: "(string \<times> string) list"

text \<open>
  The one way the body of the loop can fail: \<open>group(1)\<close> is \<open>None\<close> where the program
  needs text. \<open>name.lower()\<close> and \<open>.strip()\<close> raise AttributeError on \<open>None\<close>; the Email
  rule would format \<open>None\<close> into the title and store it as recipient, which the model
  counts as a failure too, so that a returned action holds text only.
\<close>

datatype error = NoneGroup

text \<open>
  The body of the loop over the sentences runs four blocks in sequence, and a block that
  appends an action ends the iteration with \<open>continue\<close>. Each block is a function of the
  list built so far, the trimmed sentence and its lower-case form; a block that does not
  append hands over to the block below it.
\<close>

definition task_block :: "action list \<Rightarrow> string \<Rightarrow> string \<Rightarrow> error + action list" where
  "task_block actions sentence lower =
     (if list_ex (\<lambda>x. py_in x lower) [''need to'', ''should'', ''must'', ''have to''] then
        (case re_search task_re True sentence of
           Some task_match \<Rightarrow>
             (case group1 task_match of
                None \<Rightarrow> Inl NoneGroup
              | Some g \<Rightarrow>
                  (let task = py_strip g
                   in Inr (actions @
                        [\<lparr>action_type = ''task'', title = take 50 task,
                          description = sentence, metadata = []\<rparr>])))
         | None \<Rightarrow> Inr actions)
      else Inr actions)"

definition meeting_block :: "action list \<Rightarrow> string \<Rightarrow> string \<Rightarrow> error + action list" where
  "meeting_block actions sentence lower =
     (if py_in ''meeting'' lower \<or> py_in ''meet with'' lower \<or> py_in ''schedule'' lower then
        (case re_search meeting_re False sentence of
           Some name_match \<Rightarrow>
             (case group1 name_match of
                None \<Rightarrow> Inl NoneGroup
              | Some name \<Rightarrow>
                  if py_lower name \<notin> set [''the'', ''a'', ''my'', ''our''] then
                    Inr (actions @
                      [\<lparr>action_type = ''meeting'', title = ''Meeting with '' @ name,
                        description = sentence, metadata = [(''contact'', name)]\<rparr>])
                  else task_block actions sentence lower)
         | None \<Rightarrow> task_block actions sentence lower)
      else task_block actions sentence lower)"

definition call_block :: "action list \<Rightarrow> string \<Rightarrow> string \<Rightarrow> error + action list" where
  "call_block actions sentence lower =
     (if py_in ''call'' lower \<or> py_in ''phone'' lower \<or> py_in ''ring'' lower then
        (case re_search call_re False sentence of
           Some name_match \<Rightarrow>
             (case group1 name_match of
                None \<Rightarrow> Inl NoneGroup
              | Some name \<Rightarrow>
                  if py_lower name \<notin> set [''the'', ''a'', ''my'', ''our'', ''them'', ''back''] then
                    Inr (actions @
                      [\<lparr>action_type = ''call'', title = ''Call '' @ name,
                        description = sentence, metadata = [(''contact'', name)]\<rparr>])
                  else meeting_block actions sentence lower)
         | None \<Rightarrow> meeting_block actions sentence lower)
      else meeting_block actions sentence lower)"

definition email_block :: "action list \<Rightarrow> string \<Rightarrow> string \<Rightarrow> error + action list" where
  "email_block actions sentence lower =
     (if py_in ''email'' lower \<or> py_in ''send'' lower then
        (case re_search email_re False sentence of
           Some email_match \<Rightarrow>
             (case group1 email_match of
                None \<Rightarrow> Inl NoneGroup
              | Some addr \<Rightarrow>
                  Inr (actions @
                    [\<lparr>action_type = ''email'', title = ''Email '' @ addr,
                      description = sentence, metadata = [(''recipient'', addr)]\<rparr>]))
         | None \<Rightarrow> call_block actions sentence lower)
      else call_block actions sentence lower)"

text \<open>One iteration: trim the sentence, skip it when nothing is left, else run the blocks.\<close>

definition loop_body :: "action list \<Rightarrow> string \<Rightarrow> error + action list" where
  "loop_body actions s =
     (let sentence = py_strip s
      in if sentence = [] then Inr actions
         else email_block actions sentence (py_lower sentence))"

fun sentence_loop :: "action list \<Rightarrow> string list \<Rightarrow> error + action list" where
  "sentence_loop actions [] = Inr actions"
| "sentence_loop actions (s # ss) =
     (case loop_body actions s of
        Inl e \<Rightarrow> Inl e
      | Inr actions' \<Rightarrow> sentence_loop actions' ss)"

text \<open>
  The second loop keeps an action when the lower-case form of its title has not been
  seen, and records it in \<open>seen\<close>.
\<close>

fun dedup_loop :: "string set \<Rightarrow> action list \<Rightarrow> action list \<Rightarrow> action list" where
  "dedup_loop seen unique_actions [] = unique_actions"
| "dedup_loop seen unique_actions (a # as) =
     (let key = py_lower (title a)
      in if key \<notin> seen then dedup_loop (insert key seen) (unique_actions @ [a]) as
         else dedup_loop seen unique_actions as)"

definition sentences_of :: "string \<Rightarrow> string list" where
  "sentences_of transcript =
     py_split CHR ''.'' (py_replace CHR ''?'' CHR ''.'' (py_replace CHR ''!'' CHR ''.'' transcript))"

definition extract_actions :: "string \<Rightarrow> error + action list" where
  "extract_actions transcript =
     (if transcript = [] then Inr []
      else (case sentence_loop [] (sentences_of transcript) of
              Inl e \<Rightarrow> Inl e
            | Inr actions \<Rightarrow> Inr (dedup_loop {} [] actions)))"

section \<open>The rules as matchers of one sentence\<close>

text \<open>
  The design describes each rule as a pure matcher that takes a sentence and gives one
  candidate action or declines, and the loop as trying the matchers in a fixed order.
  The four matchers follow, each with the keyword test, the pattern and the stoplist of
  its block; \<open>first_match\<close> tries a list of matchers in order.
\<close>

definition search_group :: "regex \<Rightarrow> bool \<Rightarrow> string \<Rightarrow> string option" where
  "search_group r ic s = (case re_search r ic s of None \<Rightarrow> None | Some m \<Rightarrow> group1 m)"

definition email_rule :: "string \<Rightarrow> action option" where
  "email_rule sentence =
     (if py_in ''email'' (py_lower sentence) \<or> py_in ''send'' (py_lower sentence) then
        (case search_group email_re False sentence of
           None \<Rightarrow> None
         | Some addr \<Rightarrow>
             Some \<lparr>action_type = ''email'', title = ''Email '' @ addr,
                   description = sentence, metadata = [(''recipient'', addr)]\<rparr>)
      else None)"

definition call_rule :: "string \<Rightarrow> action option" where
  "call_rule sentence =
     (if py_in ''call'' (py_lower sentence) \<or> py_in ''phone'' (py_lower sentence)
         \<or> py_in ''ring'' (py_lower sentence) then
        (case search_group call_re False sentence of
           None \<Rightarrow> None
         | Some name \<Rightarrow>
             if py_lower name \<in> set [''the'', ''a'', ''my'', ''our'', ''them'', ''back''] then None
             else Some \<lparr>action_type = ''call'', title = ''Call '' @ name,
                        description = sentence, metadata = [(''contact'', name)]\<rparr>)
      else None)"

definition meeting_rule :: "string \<Rightarrow> action option" where
  "meeting_rule sentence =
     (if py_in ''meeting'' (py_lower sentence) \<or> py_in ''meet with'' (py_lower sentence)
         \<or> py_in ''schedule'' (py_lower sentence) then
        (case search_group meeting_re False sentence of
           None \<Rightarrow> None
         | Some name \<Rightarrow>
             if py_lower name \<in> set [''the'', ''a'', ''my'', ''our''] then None
             else Some \<lparr>action_type = ''meeting'', title = ''Meeting with '' @ name,
                        description = sentence, metadata = [(''contact'', name)]\<rparr>)
      else None)"

definition task_rule :: "string \<Rightarrow> action option" where
  "task_rule sentence =
     (if list_ex (\<lambda>x. py_in x (py_lower sentence))
           [''need to'', ''should'', ''must'', ''have to''] then
        (case search_group task_re True sentence of
           None \<Rightarrow> None
         | Some g \<Rightarrow>
             Some \<lparr>action_type = ''task'', title = take 50 (py_strip g),
                   description = sentence, metadata = []\<rparr>)
      else None)"

fun first_match :: "(string \<Rightarrow> action option) list \<Rightarrow> string \<Rightarrow> action option" where
  "first_match [] sentence = None"
| "first_match (rule # rules) sentence =
     (case rule sentence of
        Some a \<Rightarrow> Some a
      | None \<Rightarrow> first_match rules sentence)"

text \<open>The candidates of one sentence: none, or the one action of the first rule that matches.\<close>

definition candidates :: "string \<Rightarrow> action list" where
  "candidates sentence =
     (case first_match [email_rule, call_rule, meeting_rule, task_rule] sentence of
        None \<Rightarrow> []
      | Some a \<Rightarrow> [a])"

text \<open>The key of the second loop, and the loop started as the program starts it.\<close>

definition title_key :: "action \<Rightarrow> string" where
  "title_key a = py_lower (title a)"

definition deduplicate :: "action list \<Rightarrow> action list" where
  "deduplicate actions = dedup_loop {} [] actions"

text \<open>
  The invariant of an action: a title that is not empty, one of the four types, and the
  metadata keys of that type.
\<close>

definition valid_action :: "action \<Rightarrow> bool" where
  "valid_action a \<longleftrightarrow>
     title a \<noteq> [] \<and>
     ((action_type a = ''email'' \<and> map fst (metadata a) = [''recipient'']) \<or>
      (action_type a = ''call'' \<and> map fst (metadata a) = [''contact'']) \<or>
      (action_type a = ''meeting'' \<and> map fst (metadata a) = [''contact'']) \<or>
      (action_type a = ''task'' \<and> metadata a = []))"

text \<open>
  The shape of a name found by the Call pattern: a capital letter and one or more small
  letters, once or twice, the two words separated by whitespace.
\<close>

definition cap_word :: "string \<Rightarrow> bool" where
  "cap_word w \<longleftrightarrow>
     (case w of
        [] \<Rightarrow> False
      | c # cs \<Rightarrow> in_range CHR ''A'' CHR ''Z'' c \<and> cs \<noteq> [] \<and>
                  list_all (in_range CHR ''a'' CHR ''z'') cs)"

section \<open>The HTTP endpoint\<close>

text \<open>
  The values a parsed JSON body is made of, as Python objects. A float is a real here:
  the two infinities and NaN, which \<open>json.loads\<close> accepts too, are left out.
\<close>

datatype pyval =
    PNone
  | PBool bool
  | PInt int
  | PFloat real
  | PStr string
  | PList "pyval list"
  | PDict "(string \<times> pyval) list"

text \<open>The truth value that \<open>not x\<close> tests.\<close>

fun truthy :: "pyval \<Rightarrow> bool" where
  "truthy PNone = False"
| "truthy (PBool b) = b"
| "truthy (PInt i) = (i \<noteq> 0)"
| "truthy (PFloat x) = (x \<noteq> 0)"
| "truthy (PStr s) = (s \<noteq> [])"
| "truthy (PList xs) = (xs \<noteq> [])"
| "truthy (PDict kvs) = (kvs \<noteq> [])"

fun type_name :: "pyval \<Rightarrow> string" where
  "type_name PNone = ''NoneType''"
| "type_name (PBool b) = ''bool''"
| "type_name (PInt i) = ''int''"
| "type_name (PFloat x) = ''float''"
| "type_name (PStr s) = ''str''"
| "type_name (PList xs) = ''list''"
| "type_name (PDict kvs) = ''dict''"

text \<open>
  \<open>req_body.get(key)\<close>: the value of the key or \<open>None\<close> on a dictionary; on any other
  value the attribute is missing and Python raises AttributeError, here \<open>Inl\<close> with the
  text of the exception.
\<close>

fun py_get :: "pyval \<Rightarrow> string \<Rightarrow> string + pyval" where
  "py_get (PDict kvs) key = Inr (case map_of kvs key of None \<Rightarrow> PNone | Some v \<Rightarrow> v)"
| "py_get v key = Inl ([CHR 0x27] @ type_name v @ [CHR 0x27] @ '' object has no attribute ''
                        @ [CHR 0x27] @ ''get'' @ [CHR 0x27])"

record response =
  status_code :: nat
  body :: "(string \<times> pyval) list"
  mimetype :: string

text \<open>The handler of \<open>except Exception as e\<close>.\<close>

definition error_response :: "string \<Rightarrow> response" where
  "error_response e =
     \<lparr>status_code = 500, body = [(''error'', PStr e)], mimetype = ''application/json''\<rparr>"

text \<open>
  \<open>transcribe_audio\<close>. Its two collaborators are parameters: \<open>get_json\<close> is what
  \<open>req.get_json()\<close> does on the request, the parsed body or the ValueError it raises on a
  body that is no JSON (\<open>Inl\<close> with the text of the exception); \<open>process\<close> is all the work
  after the check of the two fields (download, transcription, storage), which raises or
  gives the transcript.
\<close>

definition transcribe_audio ::
  "string + pyval \<Rightarrow> (pyval \<Rightarrow> pyval \<Rightarrow> string + string) \<Rightarrow> response" where
  "transcribe_audio get_json process =
     (case get_json of
        Inl e \<Rightarrow> error_response e
      | Inr req_body \<Rightarrow>
          (case py_get req_body ''recording_id'' of
             Inl e \<Rightarrow> error_response e
           | Inr recording_id \<Rightarrow>
               (case py_get req_body ''audio_url'' of
                  Inl e \<Rightarrow> error_response e
                | Inr audio_url \<Rightarrow>
                    if \<not> truthy recording_id \<or> \<not> truthy audio_url then
                      \<lparr>status_code = 400,
                        body = [(''error'', PStr ''Missing recording_id or audio_url'')],
                        mimetype = ''application/json''\<rparr>
                    else
                      (case process recording_id audio_url of
                         Inl e \<Rightarrow> error_response e
                       | Inr transcript \<Rightarrow>
                           \<lparr>status_code = 200,
                             body = [(''success'', PBool True), (''recording_id'', recording_id),
                                     (''transcript'', PStr transcript)],
                             mimetype = ''application/json''\<rparr>))))"

text \<open>A collaborator that succeeds, for running the endpoint on a concrete request.\<close>

definition process_ok :: "pyval \<Rightarrow> pyval \<Rightarrow> string + string" where
  "process_ok recording_id audio_url = Inr ''hello''"

section \<open>Lemmas on strings and on the matcher\<close>

subsection \<open>Strings\<close>

lemma py_split_not_Nil: "py_split sep s \<noteq> []"
  by (induction s) (auto split: list.splits)

lemma py_split_no_sep: "p \<in> set (py_split sep s) \<Longrightarrow> sep \<notin> set p"
  by (induction s arbitrary: p) (auto split: if_splits list.splits)

lemma py_split_subset: "p \<in> set (py_split sep s) \<Longrightarrow> set p \<subseteq> set s"
proof (induction s arbitrary: p)
  case Nil
  then show ?case by simp
next
  case (Cons c cs)
  show ?case
  proof (cases "c = sep")
    case True
    with Cons.prems have "p = [] \<or> p \<in> set (py_split sep cs)" by simp
    then show ?thesis using Cons.IH by auto
  next
    case False
    obtain w ws where ws: "py_split sep cs = w # ws"
      using py_split_not_Nil by (cases "py_split sep cs") auto
    with False Cons.prems have "p = c # w \<or> p \<in> set ws" by simp
    moreover have "set w \<subseteq> set cs" using Cons.IH[of w] ws by simp
    moreover have "p \<in> set ws \<Longrightarrow> set p \<subseteq> set cs" using Cons.IH[of p] ws by simp
    ultimately show ?thesis by auto
  qed
qed

lemma py_strip_subset: "set (py_strip s) \<subseteq> set s"
proof -
  have "set (dropWhile py_isspace (rev (dropWhile py_isspace s))) \<subseteq> set (rev (dropWhile py_isspace s))"
    by (rule set_dropWhileD[THEN subsetI]) 
  also have "\<dots> \<subseteq> set s" using set_dropWhileD by fastforce
  finally show ?thesis by (simp add: py_strip_def)
qed

lemma py_strip_last: "py_strip s \<noteq> [] \<Longrightarrow> \<not> py_isspace (last (py_strip s))"
  unfolding py_strip_def
  by (metis hd_dropWhile last_rev rev_is_Nil_conv rev_rev_ident)

lemma py_strip_all_space: "\<forall>c\<in>set s. py_isspace c \<Longrightarrow> py_strip s = []"
proof -
  assume "\<forall>c\<in>set s. py_isspace c"
  then have "dropWhile py_isspace s = []" by simp
  then have "py_strip s = rev (dropWhile py_isspace (rev []))"
    unfolding py_strip_def by (simp only:)
  then show ?thesis by simp
qed

lemma dropWhile_last: "xs \<noteq> [] \<Longrightarrow> \<not> P (last xs) \<Longrightarrow> dropWhile P xs \<noteq> [] \<and> last (dropWhile P xs) = last xs"
  by (induction xs) (auto split: if_splits)

lemma py_strip_keeps: "s \<noteq> [] \<Longrightarrow> \<not> py_isspace (last s) \<Longrightarrow> py_strip s \<noteq> []"
proof -
  assume a: "s \<noteq> []" "\<not> py_isspace (last s)"
  let ?d = "dropWhile py_isspace s"
  have d: "?d \<noteq> []" "last ?d = last s" using dropWhile_last[of s py_isspace] a by auto
  then have "hd (rev ?d) = last s" by (simp add: hd_rev)
  then have "dropWhile py_isspace (rev ?d) = rev ?d"
    using a d by (cases "rev ?d") auto
  then show ?thesis using d by (simp add: py_strip_def)
qed

lemma py_in_sublist: "py_in needle hay \<longleftrightarrow> sublist needle hay"
  by (induction hay) (simp_all add: sublist_Cons_right disj_commute)

subsection \<open>The matcher\<close>

lemma in_run_Lit:
  "(g', s') \<in> set (run ic (Lit p) g s) \<longleftrightarrow> g' = g \<and> lit_prefix ic p s \<and> s' = drop (length p) s"
  by auto

lemma in_run_Cls:
  "(g', s') \<in> set (run ic (Cls k) g s) \<longleftrightarrow> g' = g \<and> (\<exists>c. s = c # s' \<and> in_cls k c)"
  by (auto split: list.splits)

lemma in_run_Rep:
  "(g', s') \<in> set (run ic (Rep k lo hi gr) g s) \<longleftrightarrow>
     g' = g \<and> (\<exists>i. lo \<le> i \<and> i \<le> max_rep k hi s \<and> s' = drop i s)"
  by (auto simp: Let_def)

lemma in_run_Cat:
  "(g', s') \<in> set (run ic (Cat a b) g s) \<longleftrightarrow>
     (\<exists>g1 s1. (g1, s1) \<in> set (run ic a g s) \<and> (g', s') \<in> set (run ic b g1 s1))"
  by auto

lemma in_run_Alt:
  "(g', s') \<in> set (run ic (Alt a b) g s) \<longleftrightarrow>
     (g', s') \<in> set (run ic a g s) \<or> (g', s') \<in> set (run ic b g s)"
  by auto

lemma in_run_Opt:
  "(g', s') \<in> set (run ic (Opt a) g s) \<longleftrightarrow>
     (g', s') \<in> set (run ic a g s) \<or> (g' = g \<and> s' = s)"
  by auto

lemma in_run_Grp:
  "(g', s') \<in> set (run ic (Grp a) g s) \<longleftrightarrow>
     (\<exists>g1. (g1, s') \<in> set (run ic a g s)) \<and> g' = Some (take (length s - length s') s)"
  by auto

lemma in_run_Eos:
  "(g', s') \<in> set (run ic Eos g s) \<longleftrightarrow> g' = g \<and> s' = s \<and> (s = [] \<or> s = [CHR 0x0A])"
  by auto

lemma max_rep_le: "max_rep k hi s \<le> length s"
  by (auto simp: max_rep_def Let_def length_takeWhile_le min.coboundedI2 split: option.splits)

lemma max_rep_members: "i \<le> max_rep k hi s \<Longrightarrow> \<forall>c\<in>set (take i s). in_cls k c"
proof -
  assume "i \<le> max_rep k hi s"
  then have "i \<le> length (takeWhile (in_cls k) s)"
    by (auto simp: max_rep_def Let_def split: option.splits)
  then have "take i s = take i (takeWhile (in_cls k) s)"
    by (metis append_Nil2 diff_is_0_eq' takeWhile_dropWhile_id take_0 take_append)
  then show ?thesis by (metis in_set_takeD set_takeWhileD)
qed

lemma run_suffix: "(g', s') \<in> set (run ic r g s) \<Longrightarrow> suffix s' s"
proof (induction r arbitrary: g s g' s')
  case (Cat a b)
  from Cat.prems obtain g1 s1 where "(g1, s1) \<in> set (run ic a g s)" "(g', s') \<in> set (run ic b g1 s1)"
    by (auto simp: in_run_Cat)
  then have "suffix s1 s" "suffix s' s1" using Cat.IH by blast+
  then show ?case by (rule suffix_order.trans[rotated])
next
  case (Grp a)
  then show ?case by (auto simp: in_run_Grp)
next
  case (Cls k)
  then show ?case unfolding in_run_Cls by (auto simp: suffix_Cons)
next
  case (Rep k lo hi gr)
  then show ?case unfolding in_run_Rep by (auto simp: suffix_drop)
qed (auto simp: suffix_drop split: if_splits)

lemma re_search_Some:
  "re_search r ic s = Some m \<Longrightarrow>
     \<exists>t s'. suffix t s \<and> (group1 m, s') \<in> set (run ic r None t)"
proof (induction s)
  case Nil
  then obtain x xs where "run ic r None [] = x # xs" "m = Match (fst x)"
    by (auto split: list.splits)
  then have "(group1 m, snd x) \<in> set (run ic r None [])" by simp
  then show ?case by blast
next
  case (Cons c cs)
  show ?case
  proof (cases "run ic r None (c # cs)")
    case Nil
    with Cons obtain t s' where "suffix t cs" "(group1 m, s') \<in> set (run ic r None t)" by auto
    then show ?thesis by (meson suffix_Cons)
  next
    case (Cons x xs)
    with Cons.prems have "(group1 m, snd x) \<in> set (run ic r None (c # cs))"
      by (cases x) auto
    then show ?thesis by blast
  qed
qed

lemma re_search_None:
  "re_search r ic s = None \<longleftrightarrow> (\<forall>t. suffix t s \<longrightarrow> run ic r None t = [])"
  by (induction s) (auto simp: suffix_Cons split: list.splits)

declare run.simps [simp del]

lemma lit_prefix_exact: "lit_prefix False p s \<longleftrightarrow> prefix p s"
  by (induction "False" p s rule: lit_prefix.induct) (auto simp: lit_char_def)

lemma code_lower_char: "py_isupper c \<Longrightarrow> code (lower_char c) = code c + 32"
  by (auto simp: lower_char_def py_isupper_def in_range_def code_def)

lemma lower_char_dot: "lower_char c = CHR ''.'' \<Longrightarrow> c = CHR ''.''"
proof (cases "py_isupper c")
  case True
  assume "lower_char c = CHR ''.''"
  then have "code (lower_char c) = 46" by (simp add: code_def)
  then show ?thesis using code_lower_char[OF True] True
    by (simp add: py_isupper_def in_range_def code_def)
next
  case False
  assume "lower_char c = CHR ''.''"
  then show ?thesis using False by (simp add: lower_char_def)
qed

lemma lower_char_of_dot: "lower_char CHR ''.'' = CHR ''.''"
  by (simp add: lower_char_def py_isupper_def in_range_def code_def)

lemma lit_prefix_dot: "lit_prefix ic ''.'' s \<longleftrightarrow> (\<exists>r. s = CHR ''.'' # r)"
  by (cases s; cases ic) (auto simp: lit_char_def lower_char_of_dot dest: lower_char_dot)

lemma isspace_newline: "py_isspace (CHR 0x0A)"
  by (simp add: py_isspace_def in_range_def code_def)

lemma rep_split:
  assumes "(g', s') \<in> set (run ic (Rep k lo hi gr) g s)"
  shows "\<exists>w. s = w @ s' \<and> lo \<le> length w \<and> (\<forall>c\<in>set w. in_cls k c) \<and> g' = g"
proof -
  from assms obtain i where i: "lo \<le> i" "i \<le> max_rep k hi s" "s' = drop i s" "g' = g"
    by (auto simp: in_run_Rep)
  have "i \<le> length s" using i(2) max_rep_le[of k hi s] by simp
  then have "length (take i s) = i" by simp
  moreover have "s = take i s @ s'" using i(3) by simp
  ultimately show ?thesis using i max_rep_members[OF i(2)] by metis
qed

lemma spaces_split:
  assumes "(g', s') \<in> set (run ic spaces g s)"
  shows "\<exists>w. s = w @ s' \<and> w \<noteq> [] \<and> (\<forall>c\<in>set w. py_isspace c) \<and> g' = g"
proof -
  from rep_split[OF assms[unfolded spaces_def]]
  obtain w where "s = w @ s'" "1 \<le> length w" "\<forall>c\<in>set w. in_cls (Set [Space]) c" "g' = g"
    by blast
  then show ?thesis by (intro exI[of _ w]) auto
qed

lemma word_split:
  assumes "(g', s') \<in> set (run ic word_re g s)"
  shows "\<exists>w. s = w @ s' \<and> cap_word w \<and> g' = g"
proof -
  from assms obtain g1 s1 where
    a: "(g1, s1) \<in> set (run ic (Cls (Set [letters_upper])) g s)" and
    b: "(g', s') \<in> set (run ic (Rep (Set [letters_lower]) 1 None True) g1 s1)"
    unfolding word_re_def in_run_Cat by blast
  from a obtain c where c: "s = c # s1" "in_range CHR ''A'' CHR ''Z'' c" "g1 = g"
    by (auto simp: in_run_Cls letters_upper_def)
  from rep_split[OF b] obtain w where
    w: "s1 = w @ s'" "1 \<le> length w" "\<forall>c\<in>set w. in_cls (Set [letters_lower]) c" "g' = g1"
    by blast
  have "cap_word (c # w)" using c w by (auto simp: cap_word_def list_all_iff letters_lower_def)
  then show ?thesis using c w by (intro exI[of _ "c # w"]) simp
qed

lemma name_split:
  assumes "(g', s') \<in> set (run ic name_re g s)"
  shows "\<exists>name. s = name @ s' \<and> g' = Some name \<and>
           (cap_word name \<or>
            (\<exists>w1 sp w2. name = w1 @ sp @ w2 \<and> cap_word w1 \<and> sp \<noteq> [] \<and>
                         (\<forall>c\<in>set sp. py_isspace c) \<and> cap_word w2))"
proof -
  from assms obtain g0 where
    a: "(g0, s') \<in> set (run ic (Cat word_re (Opt (Cat spaces word_re))) g s)" and
    g': "g' = Some (take (length s - length s') s)"
    unfolding name_re_def in_run_Grp by blast
  from a obtain g1 s1 where
    w1: "(g1, s1) \<in> set (run ic word_re g s)" and
    o: "(g0, s') \<in> set (run ic (Opt (Cat spaces word_re)) g1 s1)"
    unfolding in_run_Cat by blast
  from word_split[OF w1] obtain w1 where w1': "s = w1 @ s1" "cap_word w1" by blast
  from o consider
      (two) "(g0, s') \<in> set (run ic (Cat spaces word_re) g1 s1)"
    | (one) "s' = s1"
    unfolding in_run_Opt by blast
  then show ?thesis
  proof cases
    case one
    then have "take (length s - length s') s = w1" using w1' by simp
    then show ?thesis using w1' one g' by auto
  next
    case two
    then obtain g2 s2 where
      sp: "(g2, s2) \<in> set (run ic spaces g1 s1)" and
      w2: "(g0, s') \<in> set (run ic word_re g2 s2)"
      unfolding in_run_Cat by blast
    from spaces_split[OF sp] obtain sp where sp': "s1 = sp @ s2" "sp \<noteq> []" "\<forall>c\<in>set sp. py_isspace c"
      by blast
    from word_split[OF w2] obtain w2 where w2': "s2 = w2 @ s'" "cap_word w2" by blast
    have s: "s = (w1 @ sp @ w2) @ s'" using w1' sp' w2' by simp
    then have "take (length s - length s') s = w1 @ sp @ w2" by simp
    then show ?thesis using s g' w1' sp' w2' by blast
  qed
qed

lemma keyword_split:
  assumes "(g', s') \<in> set (run False (Alt (Lit ''call'') (Alt (Lit ''phone'') (Lit ''ring''))) g s)"
  shows "\<exists>kw. s = kw @ s' \<and> kw \<in> {''call'', ''phone'', ''ring''} \<and> g' = g"
proof -
  from assms obtain kw where kw: "kw \<in> {''call'', ''phone'', ''ring''}"
    "lit_prefix False kw s" "s' = drop (length kw) s" "g' = g"
    unfolding in_run_Alt in_run_Lit by blast
  then have "prefix kw s" by (simp only: lit_prefix_exact)
  then have "s = kw @ s'" using kw(3) by (metis append_eq_conv_conj prefixE)
  then show ?thesis using kw by blast
qed

lemma call_re_split:
  assumes "(g', s') \<in> set (run False call_re g s)"
  shows "\<exists>kw ws name. s = kw @ ws @ name @ s' \<and> g' = Some name \<and>
           kw \<in> {''call'', ''phone'', ''ring''} \<and> ws \<noteq> [] \<and> (\<forall>c\<in>set ws. py_isspace c) \<and>
           (cap_word name \<or>
            (\<exists>w1 sp w2. name = w1 @ sp @ w2 \<and> cap_word w1 \<and> sp \<noteq> [] \<and>
                         (\<forall>c\<in>set sp. py_isspace c) \<and> cap_word w2))"
proof -
  from assms obtain g1 s1 g2 s2 where
    k: "(g1, s1) \<in> set (run False (Alt (Lit ''call'') (Alt (Lit ''phone'') (Lit ''ring''))) g s)" and
    w: "(g2, s2) \<in> set (run False spaces g1 s1)" and
    n: "(g', s') \<in> set (run False name_re g2 s2)"
    unfolding call_re_def in_run_Cat by blast
  from keyword_split[OF k] obtain kw where kw: "s = kw @ s1" "kw \<in> {''call'', ''phone'', ''ring''}"
    by blast
  from spaces_split[OF w] obtain ws where ws: "s1 = ws @ s2" "ws \<noteq> []" "\<forall>c\<in>set ws. py_isspace c"
    by blast
  from name_split[OF n] obtain name where name: "s2 = name @ s'" "g' = Some name"
    "cap_word name \<or>
            (\<exists>w1 sp w2. name = w1 @ sp @ w2 \<and> cap_word w1 \<and> sp \<noteq> [] \<and>
                         (\<forall>c\<in>set sp. py_isspace c) \<and> cap_word w2)"
    by blast
  have "s = kw @ ws @ name @ s'" using kw ws name by simp
  then show ?thesis using kw ws name by blast
qed

lemma cat_last:
  assumes "(g', s') \<in> set (run ic (Cat a (Cat b (Cat c d))) g s)"
  shows "\<exists>g3 s3. (g', s') \<in> set (run ic d g3 s3)"
proof -
  from assms obtain g1 s1 where "(g', s') \<in> set (run ic (Cat b (Cat c d)) g1 s1)"
    unfolding in_run_Cat[of _ _ _ a] by blast
  then obtain g2 s2 where "(g', s') \<in> set (run ic (Cat c d) g2 s2)"
    unfolding in_run_Cat[of _ _ _ b] by blast
  then show ?thesis unfolding in_run_Cat[of _ _ _ c] by blast
qed

lemma cap_word_nonempty: "cap_word w \<Longrightarrow> w \<noteq> []"
  by (auto simp: cap_word_def)

lemma meeting_re_group:
  assumes "(g', s') \<in> set (run ic meeting_re g s)"
  shows "\<exists>name. g' = Some name \<and> name \<noteq> []"
proof -
  from cat_last[OF assms[unfolded meeting_re_def]]
  obtain g3 s3 where "(g', s') \<in> set (run ic name_re g3 s3)" by blast
  from name_split[OF this] obtain name where n: "g' = Some name"
    "cap_word name \<or> (\<exists>w1 sp w2. name = w1 @ sp @ w2 \<and> cap_word w1 \<and> sp \<noteq> [] \<and>
                         (\<forall>c\<in>set sp. py_isspace c) \<and> cap_word w2)"
    by blast
  then have "name \<noteq> []" using cap_word_nonempty by auto
  then show ?thesis using n by simp
qed

lemma email_re_dot:
  assumes "(g', s') \<in> set (run ic email_re g s)"
  shows "CHR ''.'' \<in> set s \<and> (\<exists>addr. g' = Some addr)"
proof -
  from assms obtain g0 g1 s1 g2 s2 g3 s3 g4 s4 where
    "(g1, s1) \<in> set (run ic (Rep (Set [letters_lower, letters_upper, digits, One CHR ''.'',
        One CHR ''_'', One CHR ''%'', One CHR ''+'', One CHR ''-'']) 1 None True) g s)"
    "(g2, s2) \<in> set (run ic (Lit ''@'') g1 s1)"
    "(g3, s3) \<in> set (run ic (Rep (Set [letters_lower, letters_upper, digits, One CHR ''.'',
        One CHR ''-'']) 1 None True) g2 s2)"
    "(g4, s4) \<in> set (run ic (Lit ''.'') g3 s3)" and
    g': "g' = Some (take (length s - length s') s)"
    unfolding email_re_def in_run_Grp in_run_Cat by blast
  then have "suffix s1 s" "suffix s2 s1" "suffix s3 s2" "\<exists>r. s3 = CHR ''.'' # r"
    using run_suffix by (blast, blast, blast, simp add: in_run_Lit lit_prefix_dot)
  then have "suffix s3 s" "CHR ''.'' \<in> set s3" by (auto intro: suffix_order.trans)
  then show ?thesis using g' by (auto simp: suffix_def)
qed

lemma task_re_split:
  assumes "(g', s') \<in> set (run ic task_re g s)"
  shows "\<exists>t r. g' = Some t \<and> 10 \<le> length t \<and> suffix (t @ r) s \<and>
           (r = [] \<or> r = [CHR 0x0A] \<or> (\<exists>r'. r = CHR ''.'' # r'))"
proof -
  from assms obtain g1 s1 g2 s2 g3 s3 where
    k: "(g1, s1) \<in> set (run ic (Alt (Lit ''need to'') (Alt (Lit ''should'')
          (Alt (Lit ''must'') (Lit ''have to'')))) g s)" and
    w: "(g2, s2) \<in> set (run ic spaces g1 s1)" and
    t: "(g3, s3) \<in> set (run ic (Grp (Rep Dot 10 (Some 60) False)) g2 s2)" and
    e: "(g', s') \<in> set (run ic (Alt (Lit ''.'') Eos) g3 s3)"
    unfolding task_re_def in_run_Cat by blast
  from t obtain g0 where t': "(g0, s3) \<in> set (run ic (Rep Dot 10 (Some 60) False) g2 s2)"
    and g3: "g3 = Some (take (length s2 - length s3) s2)"
    unfolding in_run_Grp by blast
  from rep_split[OF t'] obtain x where x: "s2 = x @ s3" "10 \<le> length x" by blast
  then have g3': "g3 = Some x" using g3 by simp
  have "suffix s1 s" "suffix s2 s1" using k w run_suffix by blast+
  then have "suffix (x @ s3) s" using x by (auto intro: suffix_order.trans)
  moreover from e have "g' = g3 \<and> (s3 = [] \<or> s3 = [CHR 0x0A] \<or> (\<exists>r'. s3 = CHR ''.'' # r'))"
    unfolding in_run_Alt in_run_Lit in_run_Eos lit_prefix_dot by blast
  ultimately show ?thesis using g3' x by blast
qed

subsection \<open>What a search returns\<close>

lemma email_search_no_dot: "CHR ''.'' \<notin> set s \<Longrightarrow> re_search email_re ic s = None"
proof -
  assume nd: "CHR ''.'' \<notin> set s"
  have "run ic email_re None t = []" if "suffix t s" for t
  proof (cases "run ic email_re None t")
    case (Cons x xs)
    then have "(fst x, snd x) \<in> set (run ic email_re None t)" by simp
    then have "CHR ''.'' \<in> set t" using email_re_dot by blast
    then show ?thesis using that nd by (auto simp: suffix_def)
  qed simp
  then show ?thesis by (simp add: re_search_None)
qed

lemma email_group: "re_search email_re ic s = Some m \<Longrightarrow> \<exists>x. group1 m = Some x"
  using re_search_Some email_re_dot by blast

lemma call_group: "re_search call_re False s = Some m \<Longrightarrow> \<exists>x. group1 m = Some x"
  using re_search_Some call_re_split by blast

lemma meeting_group: "re_search meeting_re ic s = Some m \<Longrightarrow> \<exists>x. group1 m = Some x \<and> x \<noteq> []"
  using re_search_Some meeting_re_group by blast

lemma task_group: "re_search task_re ic s = Some m \<Longrightarrow> \<exists>x. group1 m = Some x"
  using re_search_Some task_re_split by blast

subsection \<open>The blocks and the matchers\<close>

lemma task_block_eq:
  "task_block actions s (py_lower s) =
     Inr (actions @ (case task_rule s of None \<Rightarrow> [] | Some a \<Rightarrow> [a]))"
proof (cases "re_search task_re True s")
  case None
  then show ?thesis by (simp add: task_block_def task_rule_def search_group_def)
next
  case (Some m)
  then obtain g where "group1 m = Some g" using task_group by blast
  with Some show ?thesis by (simp add: task_block_def task_rule_def search_group_def)
qed

lemma meeting_block_eq:
  "meeting_block actions s (py_lower s) =
     Inr (actions @ (case first_match [meeting_rule, task_rule] s of None \<Rightarrow> [] | Some a \<Rightarrow> [a]))"
proof (cases "re_search meeting_re False s")
  case None
  then show ?thesis
    by (simp add: meeting_block_def meeting_rule_def search_group_def task_block_eq split: option.splits)
next
  case (Some m)
  then obtain g where "group1 m = Some g" using meeting_group by blast
  with Some show ?thesis
    by (simp add: meeting_block_def meeting_rule_def search_group_def task_block_eq split: option.splits)
qed

lemma call_block_eq:
  "call_block actions s (py_lower s) =
     Inr (actions @ (case first_match [call_rule, meeting_rule, task_rule] s of
                       None \<Rightarrow> [] | Some a \<Rightarrow> [a]))"
proof (cases "re_search call_re False s")
  case None
  then show ?thesis
    using meeting_block_eq[of actions s]
    by (simp add: call_block_def call_rule_def search_group_def split: option.splits)
next
  case (Some m)
  then obtain g where "group1 m = Some g" using call_group by blast
  with Some show ?thesis
    using meeting_block_eq[of actions s]
    by (simp add: call_block_def call_rule_def search_group_def split: option.splits)
qed

lemma email_block_eq:
  "email_block actions s (py_lower s) = Inr (actions @ candidates s)"
proof (cases "re_search email_re False s")
  case None
  then show ?thesis
    using call_block_eq[of actions s]
    by (simp add: email_block_def email_rule_def search_group_def candidates_def split: option.splits)
next
  case (Some m)
  then obtain g where "group1 m = Some g" using email_group by blast
  with Some show ?thesis
    using call_block_eq[of actions s]
    by (simp add: email_block_def email_rule_def search_group_def candidates_def split: option.splits)
qed

lemma candidates_Nil: "candidates [] = []"
  by (simp add: candidates_def email_rule_def call_rule_def meeting_rule_def task_rule_def
        py_lower_def)

lemma loop_body_eq: "loop_body actions s = Inr (actions @ candidates (py_strip s))"
  by (simp add: loop_body_def Let_def email_block_eq candidates_Nil)

lemma sentence_loop_eq:
  "sentence_loop actions ss = Inr (actions @ concat (map (\<lambda>s. candidates (py_strip s)) ss))"
  by (induction ss arbitrary: actions) (simp_all add: loop_body_eq)

lemma sentences_of_Nil: "sentences_of [] = [[]]"
  by (simp add: sentences_of_def py_replace_def)

lemma extract_actions_eq:
  "extract_actions t =
     Inr (deduplicate (concat (map (\<lambda>s. candidates (py_strip s)) (sentences_of t))))"
  by (simp add: extract_actions_def sentence_loop_eq deduplicate_def sentences_of_Nil
        py_strip_def candidates_Nil)

subsection \<open>The sentences\<close>

lemma sentence_no_dot: "s \<in> set (sentences_of t) \<Longrightarrow> CHR ''.'' \<notin> set (py_strip s)"
  using py_split_no_sep py_strip_subset unfolding sentences_of_def by blast

lemma not_space_marks: "\<not> py_isspace CHR ''!''" "\<not> py_isspace CHR ''?''" "\<not> py_isspace CHR ''.''"
  by (simp_all add: py_isspace_def in_range_def code_def)

lemma py_replace_absent: "a \<notin> set s \<Longrightarrow> py_replace a b s = s"
  by (induction s) (auto simp: py_replace_def)

lemma sentences_of_spaces:
  assumes "\<forall>c\<in>set t. py_isspace c" and "s \<in> set (sentences_of t)"
  shows "py_strip s = []"
proof -
  have "CHR ''!'' \<notin> set t" "CHR ''?'' \<notin> set t" using assms(1) not_space_marks by blast+
  then have "sentences_of t = py_split CHR ''.'' t"
    by (simp add: sentences_of_def py_replace_absent)
  then have "set s \<subseteq> set t" using assms(2) py_split_subset by simp
  then show ?thesis using assms(1) by (intro py_strip_all_space) blast
qed

subsection \<open>The candidates of a sentence\<close>

lemma task_search_suffix:
  assumes "re_search task_re ic s = Some m" and "CHR ''.'' \<notin> set s"
    and "s \<noteq> []" and "\<not> py_isspace (last s)"
  shows "\<exists>g. group1 m = Some g \<and> py_strip g \<noteq> []"
proof -
  from re_search_Some[OF assms(1)] obtain t s' where
    t: "suffix t s" "(group1 m, s') \<in> set (run ic task_re None t)" by blast
  from task_re_split[OF t(2)] obtain g r where
    g: "group1 m = Some g" "10 \<le> length g" "suffix (g @ r) t"
       "r = [] \<or> r = [CHR 0x0A] \<or> (\<exists>r'. r = CHR ''.'' # r')" by blast
  have suf: "suffix (g @ r) s" using g(3) t(1) by (rule suffix_order.trans)
  then obtain p where p: "s = p @ g @ r" by (auto simp: suffix_def)
  have "r = []"
  proof (rule ccontr)
    assume "r \<noteq> []"
    with g(4) consider "r = [CHR 0x0A]" | r' where "r = CHR ''.'' # r'" by blast
    then show False
    proof cases
      case 1
      then have "last s = CHR 0x0A" using p by simp
      then show False using assms(4) isspace_newline by simp
    next
      case 2
      then show False using p assms(2) by simp
    qed
  qed
  moreover have "g \<noteq> []" using g(2) by auto
  ultimately have "last g = last s" using p by simp
  then have "py_strip g \<noteq> []" using \<open>g \<noteq> []\<close> assms(4) by (intro py_strip_keeps) simp_all
  then show ?thesis using g(1) by blast
qed

lemma email_rule_no_dot: "CHR ''.'' \<notin> set s \<Longrightarrow> email_rule s = None"
  by (simp add: email_rule_def search_group_def email_search_no_dot)

lemma call_rule_valid: "call_rule s = Some a \<Longrightarrow> valid_action a \<and> action_type a = ''call''"
  by (auto simp: call_rule_def valid_action_def split: if_splits option.splits)

lemma meeting_rule_valid: "meeting_rule s = Some a \<Longrightarrow> valid_action a \<and> action_type a = ''meeting''"
  by (auto simp: meeting_rule_def valid_action_def split: if_splits option.splits)

lemma task_rule_valid:
  assumes "task_rule s = Some a" and "CHR ''.'' \<notin> set s" and "s \<noteq> []"
    and "\<not> py_isspace (last s)"
  shows "valid_action a \<and> action_type a = ''task''"
proof -
  from assms(1) obtain g where g: "search_group task_re True s = Some g"
    "a = \<lparr>action_type = ''task'', title = take 50 (py_strip g), description = s, metadata = []\<rparr>"
    by (auto simp: task_rule_def split: if_splits option.splits)
  then obtain m where "re_search task_re True s = Some m" "group1 m = Some g"
    by (auto simp: search_group_def split: option.splits)
  then have "py_strip g \<noteq> []" using task_search_suffix[OF _ assms(2,3,4)] by fastforce
  then show ?thesis using g(2) by (simp add: valid_action_def)
qed

lemma candidates_cases:
  assumes "a \<in> set (candidates s)"
  shows "email_rule s = Some a \<or> call_rule s = Some a \<or> meeting_rule s = Some a
           \<or> task_rule s = Some a"
  using assms by (auto simp: candidates_def split: option.splits)

lemma candidates_valid:
  assumes "a \<in> set (candidates s)" and "CHR ''.'' \<notin> set s" and "\<not> py_isspace (last s)"
  shows "valid_action a \<and> action_type a \<noteq> ''email''"
proof -
  have "s \<noteq> []" using assms(1) candidates_Nil by auto
  from candidates_cases[OF assms(1)] email_rule_no_dot[OF assms(2)]
  consider "call_rule s = Some a" | "meeting_rule s = Some a" | "task_rule s = Some a" by auto
  then show ?thesis
  proof cases
    case 1
    then show ?thesis using call_rule_valid by fastforce
  next
    case 2
    then show ?thesis using meeting_rule_valid by fastforce
  next
    case 3
    then show ?thesis using task_rule_valid[OF 3 assms(2) \<open>s \<noteq> []\<close> assms(3)] by simp
  qed
qed

lemma length_candidates: "length (candidates s) \<le> 1"
  by (simp add: candidates_def split: option.splits)

lemma all_candidates_valid:
  assumes "a \<in> set (concat (map (\<lambda>s. candidates (py_strip s)) (sentences_of t)))"
  shows "valid_action a \<and> action_type a \<noteq> ''email''"
proof -
  from assms obtain s where s: "s \<in> set (sentences_of t)" "a \<in> set (candidates (py_strip s))"
    by auto
  then have "py_strip s \<noteq> []" using candidates_Nil by auto
  then show ?thesis using candidates_valid[OF s(2) sentence_no_dot[OF s(1)]] py_strip_last by blast
qed

subsection \<open>The second loop\<close>

lemma dedup_loop_acc: "dedup_loop seen u xs = u @ dedup_loop seen [] xs"
proof (induction xs arbitrary: seen u)
  case Nil
  then show ?case by simp
next
  case (Cons a as)
  show ?case using Cons.IH[of _ "u @ [a]"] Cons.IH[of _ "[a]"] Cons.IH[of _ u]
    by (simp add: Let_def)
qed

lemma dedup_loop_Cons:
  "dedup_loop seen [] (a # as) =
     (if title_key a \<notin> seen then a # dedup_loop (insert (title_key a) seen) [] as
      else dedup_loop seen [] as)"
  using dedup_loop_acc[of _ "[a]" as] by (simp add: Let_def title_key_def)

lemma dedup_loop_subseq: "subseq (dedup_loop seen [] xs) xs"
  by (induction xs arbitrary: seen)
     (auto simp: dedup_loop_Cons subseq_Cons' simp del: dedup_loop.simps(2) intro: list_emb_Cons)

lemma dedup_loop_keys: "title_key ` set (dedup_loop seen [] xs) = title_key ` set xs - seen"
  by (induction xs arbitrary: seen) (auto simp: dedup_loop_Cons simp del: dedup_loop.simps(2))

lemma dedup_loop_distinct: "distinct (map title_key (dedup_loop seen [] xs))"
proof (induction xs arbitrary: seen)
  case Nil
  then show ?case by simp
next
  case (Cons a as)
  have "title_key a \<notin> title_key ` set (dedup_loop (insert (title_key a) seen) [] as)"
    unfolding dedup_loop_keys by simp
  then show ?case using Cons.IH by (simp add: dedup_loop_Cons del: dedup_loop.simps(2))
qed

lemma dedup_loop_seen:
  "k \<in> seen \<Longrightarrow> filter (\<lambda>b. title_key b = k) (dedup_loop seen [] xs) = []"
proof -
  assume "k \<in> seen"
  then have "k \<notin> title_key ` set (dedup_loop seen [] xs)" unfolding dedup_loop_keys by simp
  then show ?thesis by (auto simp: filter_empty_conv)
qed

lemma dedup_loop_first:
  "k \<notin> seen \<Longrightarrow>
   filter (\<lambda>b. title_key b = k) (dedup_loop seen [] xs) =
     (case find (\<lambda>b. title_key b = k) xs of None \<Rightarrow> [] | Some f \<Rightarrow> [f])"
proof (induction xs arbitrary: seen)
  case Nil
  then show ?case by simp
next
  case (Cons a as)
  show ?case
  proof (cases "title_key a = k")
    case True
    then show ?thesis using Cons.prems dedup_loop_seen[of k "insert k seen" as]
      by (simp add: dedup_loop_Cons del: dedup_loop.simps(2))
  next
    case False
    then show ?thesis using Cons.prems Cons.IH[of seen] Cons.IH[of "insert (title_key a) seen"]
      by (simp add: dedup_loop_Cons del: dedup_loop.simps(2))
  qed
qed

subsection \<open>What reaches the result\<close>

lemma dedup_loop_subset: "set (dedup_loop seen [] xs) \<subseteq> set xs"
  by (induction xs arbitrary: seen) (auto simp: dedup_loop_Cons simp del: dedup_loop.simps(2))

lemma extract_actions_members:
  assumes "extract_actions t = Inr actions" and "a \<in> set actions"
  shows "valid_action a \<and> action_type a \<noteq> ''email''"
proof -
  have "actions = deduplicate (concat (map (\<lambda>s. candidates (py_strip s)) (sentences_of t)))"
    using assms(1) by (simp add: extract_actions_eq)
  then have "a \<in> set (concat (map (\<lambda>s. candidates (py_strip s)) (sentences_of t)))"
    using assms(2) dedup_loop_subset[of "{}"] unfolding deduplicate_def by blast
  then show ?thesis by (rule all_candidates_valid)
qed

lemma candidates_unfold:
  "candidates sentence =
     (case email_rule sentence of Some a \<Rightarrow> [a] | None \<Rightarrow>
      (case call_rule sentence of Some a \<Rightarrow> [a] | None \<Rightarrow>
       (case meeting_rule sentence of Some a \<Rightarrow> [a] | None \<Rightarrow>
        (case task_rule sentence of Some a \<Rightarrow> [a] | None \<Rightarrow> []))))"
  by (simp add: candidates_def split: option.splits)

lemma task_rule_type: "task_rule s = Some a \<Longrightarrow> action_type a = ''task''"
  by (auto simp: task_rule_def split: if_splits option.splits)

lemma lower_keywords:
  "kw \<in> {''call'', ''phone'', ''ring''} \<Longrightarrow> py_lower kw \<in> {''call'', ''phone'', ''ring''}"
  by (auto simp: py_lower_def lower_char_def py_isupper_def in_range_def code_def)

subsection \<open>The Call pattern finds a name that follows a keyword\<close>

lemma call_block_name:
  assumes "call_block actions sentence (py_lower sentence) = Inr (actions @ [a])"
    and "action_type a = ''call''"
  shows "\<exists>pre kw ws name post.
           sentence = pre @ kw @ ws @ name @ post \<and>
           py_lower kw \<in> {''call'', ''phone'', ''ring''} \<and>
           ws \<noteq> [] \<and> (\<forall>c\<in>set ws. py_isspace c) \<and>
           (cap_word name \<or>
            (\<exists>w1 sp w2. name = w1 @ sp @ w2 \<and> cap_word w1 \<and> sp \<noteq> [] \<and>
                         (\<forall>c\<in>set sp. py_isspace c) \<and> cap_word w2)) \<and>
           a = \<lparr>action_type = ''call'', title = ''Call '' @ name, description = sentence,
                 metadata = [(''contact'', name)]\<rparr>"
proof -
  have "(case first_match [call_rule, meeting_rule, task_rule] sentence of
           None \<Rightarrow> [] | Some a \<Rightarrow> [a]) = [a]"
    using assms(1) unfolding call_block_eq by simp
  then have "first_match [call_rule, meeting_rule, task_rule] sentence = Some a"
    by (simp split: option.splits)
  then consider "call_rule sentence = Some a" | "meeting_rule sentence = Some a"
    | "task_rule sentence = Some a"
    by (auto split: option.splits)
  then have c: "call_rule sentence = Some a"
  proof cases
    case 2
    then show ?thesis using meeting_rule_valid[of sentence a] assms(2) by simp
  next
    case 3
    then show ?thesis using task_rule_type[of sentence a] assms(2) by simp
  qed
  then obtain name where n: "search_group call_re False sentence = Some name"
    "a = \<lparr>action_type = ''call'', title = ''Call '' @ name, description = sentence,
                 metadata = [(''contact'', name)]\<rparr>"
    by (auto simp: call_rule_def split: if_splits option.splits)
  then obtain m where m: "re_search call_re False sentence = Some m" "group1 m = Some name"
    by (auto simp: search_group_def split: option.splits)
  from re_search_Some[OF m(1)] obtain t post where
    t: "suffix t sentence" "(Some name, post) \<in> set (run False call_re None t)"
    using m(2) by auto
  from call_re_split[OF t(2)] obtain kw ws nm where
    k0: "t = kw @ ws @ nm @ post" "Some name = Some nm" and
    k: "kw \<in> {''call'', ''phone'', ''ring''}" "ws \<noteq> []"
       "\<forall>c\<in>set ws. py_isspace c"
       "cap_word nm \<or>
            (\<exists>w1 sp w2. nm = w1 @ sp @ w2 \<and> cap_word w1 \<and> sp \<noteq> [] \<and>
                         (\<forall>c\<in>set sp. py_isspace c) \<and> cap_word w2)"
    by blast
  have nm: "nm = name" using k0(2) by simp
  from t(1) k0(1) obtain pre where "sentence = pre @ kw @ ws @ name @ post"
    unfolding nm by (auto simp: suffix_def)
  then show ?thesis using k(2,3,4) n(2) lower_keywords[OF k(1)] unfolding nm by blast
qed

lemma max_rep_ge:
  assumes "\<forall>c\<in>set w. in_cls k c"
  shows "length w \<le> max_rep k None (w @ s)"
proof -
  have "takeWhile (in_cls k) (w @ s) = w @ takeWhile (in_cls k) s"
    using assms by (simp add: takeWhile_append2)
  then show ?thesis by (simp add: max_rep_def)
qed

lemma run_Rep_take:
  assumes "\<forall>c\<in>set w. in_cls k c" and "lo \<le> length w"
  shows "(g, s) \<in> set (run ic (Rep k lo None gr) g (w @ s))"
  unfolding in_run_Rep using max_rep_ge[OF assms(1), of s] assms(2)
  by (intro conjI refl exI[of _ "length w"]) simp_all

lemma run_word:
  assumes "cap_word w"
  shows "\<exists>s'. (g, s') \<in> set (run ic word_re g (w @ s))"
proof -
  from assms obtain c d ds where w: "w = c # d # ds" "in_range CHR ''A'' CHR ''Z'' c"
    "in_range CHR ''a'' CHR ''z'' d"
  proof (cases w)
    case Nil
    then show ?thesis using assms by (simp add: cap_word_def)
  next
    case (Cons c cs)
    then obtain d ds where "cs = d # ds" using assms by (cases cs) (simp_all add: cap_word_def)
    then show ?thesis using that[of c d ds] assms Cons by (simp add: cap_word_def)
  qed
  have a: "(g, d # ds @ s) \<in> set (run ic (Cls (Set [letters_upper])) g (w @ s))"
    unfolding in_run_Cls using w by (simp add: letters_upper_def)
  have "(g, ds @ s) \<in> set (run ic (Rep (Set [letters_lower]) 1 None True) g ([d] @ (ds @ s)))"
    by (rule run_Rep_take) (use w in \<open>simp_all add: letters_lower_def\<close>)
  then have "(g, ds @ s) \<in> set (run ic (Rep (Set [letters_lower]) 1 None True) g (d # ds @ s))"
    by simp
  with a show ?thesis unfolding word_re_def in_run_Cat by blast
qed

lemma run_name:
  assumes "cap_word w"
  shows "run ic name_re g (w @ s) \<noteq> []"
proof -
  from run_word[OF assms] obtain s' where "(g, s') \<in> set (run ic word_re g (w @ s))" by blast
  then have "(g, s') \<in> set (run ic (Cat word_re (Opt (Cat spaces word_re))) g (w @ s))"
    unfolding in_run_Cat in_run_Opt by blast
  then have "(Some (take (length (w @ s) - length s') (w @ s)), s') \<in> set (run ic name_re g (w @ s))"
    unfolding name_re_def in_run_Grp by blast
  then show ?thesis by auto
qed

lemma run_call:
  assumes "kw \<in> {''call'', ''phone'', ''ring''}" and "ws \<noteq> []" and "\<forall>c\<in>set ws. py_isspace c"
    and "cap_word w"
  shows "run False call_re None (kw @ ws @ w @ rest) \<noteq> []"
proof -
  let ?t = "kw @ ws @ w @ rest"
  have "lit_prefix False kw ?t" by (simp add: lit_prefix_exact)
  then have k: "(None, ws @ w @ rest) \<in>
      set (run False (Alt (Lit ''call'') (Alt (Lit ''phone'') (Lit ''ring''))) None ?t)"
    using assms(1) unfolding in_run_Alt in_run_Lit by auto
  have s: "(None, w @ rest) \<in> set (run False spaces None (ws @ w @ rest))"
    unfolding spaces_def by (rule run_Rep_take) (use assms(2,3) in \<open>simp_all add: Suc_le_eq\<close>)
  from run_name[OF assms(4), of False None rest]
  obtain x where x: "x \<in> set (run False name_re None (w @ rest))"
    by (cases "run False name_re None (w @ rest)") auto
  then have "(fst x, snd x) \<in> set (run False name_re None (w @ rest))" by simp
  with k s have "(fst x, snd x) \<in> set (run False call_re None ?t)"
    unfolding call_re_def in_run_Cat by blast
  then show ?thesis by auto
qed

lemma call_search_finds:
  assumes "kw \<in> {''call'', ''phone'', ''ring''}" and "ws \<noteq> []" and "\<forall>c\<in>set ws. py_isspace c"
    and "cap_word w"
  shows "\<exists>name. search_group call_re False (pre @ kw @ ws @ w @ rest) = Some name"
proof -
  have "suffix (kw @ ws @ w @ rest) (pre @ kw @ ws @ w @ rest)" by (simp add: suffix_def)
  then have "re_search call_re False (pre @ kw @ ws @ w @ rest) \<noteq> None"
    unfolding re_search_None using run_call[OF assms] by blast
  then obtain m where m: "re_search call_re False (pre @ kw @ ws @ w @ rest) = Some m" by auto
  from call_group[OF m] show ?thesis using m by (auto simp: search_group_def)
qed

lemma lower_keyword_id: "kw \<in> {''call'', ''phone'', ''ring''} \<Longrightarrow> py_lower kw = kw"
  by (auto simp: py_lower_def lower_char_def py_isupper_def in_range_def code_def)

lemma call_gate:
  assumes "kw \<in> {''call'', ''phone'', ''ring''}"
  shows "py_in ''call'' (py_lower (pre @ kw @ post)) \<or> py_in ''phone'' (py_lower (pre @ kw @ post))
           \<or> py_in ''ring'' (py_lower (pre @ kw @ post))"
proof -
  have "py_lower (pre @ kw @ post) = py_lower pre @ kw @ py_lower post"
    using lower_keyword_id[OF assms] by (simp add: py_lower_def)
  then have "py_in kw (py_lower (pre @ kw @ post))"
    unfolding py_in_sublist by simp
  then show ?thesis using assms by auto
qed

lemma call_block_finds:
  assumes "kw \<in> {''call'', ''phone'', ''ring''}" and "ws \<noteq> []" and "\<forall>c\<in>set ws. py_isspace c"
    and "cap_word w" and "sentence = pre @ kw @ ws @ w @ rest"
  shows "\<exists>name. search_group call_re False sentence = Some name \<and>
           (py_lower name \<notin> set [''the'', ''a'', ''my'', ''our'', ''them'', ''back''] \<longrightarrow>
            call_block actions sentence (py_lower sentence) =
              Inr (actions @ [\<lparr>action_type = ''call'', title = ''Call '' @ name,
                     description = sentence, metadata = [(''contact'', name)]\<rparr>]))"
proof -
  from call_search_finds[OF assms(1-4), of pre rest] obtain name where
    n: "search_group call_re False sentence = Some name" unfolding assms(5) by blast
  then obtain m where m: "re_search call_re False sentence = Some m" "group1 m = Some name"
    by (auto simp: search_group_def split: option.splits)
  have g: "py_in ''call'' (py_lower sentence) \<or> py_in ''phone'' (py_lower sentence)
           \<or> py_in ''ring'' (py_lower sentence)"
    unfolding assms(5) by (rule call_gate[OF assms(1)])
  have "call_block actions sentence (py_lower sentence) =
              Inr (actions @ [\<lparr>action_type = ''call'', title = ''Call '' @ name,
                     description = sentence, metadata = [(''contact'', name)]\<rparr>])"
    if "py_lower name \<notin> set [''the'', ''a'', ''my'', ''our'', ''them'', ''back'']"
    using that g m unfolding call_block_def by simp
  then show ?thesis using n by blast
qed

section \<open>Example 1 of the design\<close>

text \<open>
  C1. The design expects one Email action for the transcript
  \<open>Please email john.doe@example.com about the report.\<close> The program splits the
  transcript at every full stop before it looks for an address, so the address is cut
  into \<open>john\<close>, \<open>doe@example\<close> and \<open>com about the report\<close>; no piece holds an address
  or triggers another rule, and the result is the empty list.
\<close>

theorem example_email_yields_nothing:
  "extract_actions ''Please email john.doe@example.com about the report.'' = Inr []"
  by code_simp

section \<open>No Email action\<close>

text \<open>
  C2. No sentence that the loop sees holds a full stop, since the sentences are the pieces
  between the full stops; the Email pattern needs one between the domain and its last
  label, so its search finds nothing in any sentence, and no action of any result has
  the type \<open>email\<close>.
\<close>

theorem no_email_action:
  "(\<forall>s\<in>set (sentences_of transcript).
       CHR ''.'' \<notin> set (py_strip s) \<and> re_search email_re False (py_strip s) = None) \<and>
   (\<forall>actions. extract_actions transcript = Inr actions \<longrightarrow>
       (\<forall>a\<in>set actions. action_type a \<noteq> ''email''))"
proof (intro conjI ballI allI impI)
  fix s assume "s \<in> set (sentences_of transcript)"
  then show "CHR ''.'' \<notin> set (py_strip s)" by (rule sentence_no_dot)
  then show "re_search email_re False (py_strip s) = None" by (rule email_search_no_dot)
next
  fix actions a
  assume "extract_actions transcript = Inr actions" and a: "a \<in> set actions"
  then show "action_type a \<noteq> ''email''" using extract_actions_members by blast
qed

theorem no_email_action_witness:
  "extract_actions ''Please email john.doe@example.com. Then call Sarah.'' =
     Inr [\<lparr>action_type = ''call'', title = ''Call Sarah'', description = ''Then call Sarah'',
           metadata = [(''contact'', ''Sarah'')]\<rparr>] \<and>
   action_type \<lparr>action_type = ''call'', title = ''Call Sarah'', description = ''Then call Sarah'',
           metadata = [(''contact'', ''Sarah'')]\<rparr> \<noteq> ''email''"
proof -
  let ?t = "''Please email john.doe@example.com. Then call Sarah.''"
  let ?a = "\<lparr>action_type = ''call'', title = ''Call Sarah'', description = ''Then call Sarah'',
           metadata = [(''contact'', ''Sarah'')]\<rparr>"
  have e: "extract_actions ?t = Inr [?a]" by code_simp
  have "action_type ?a \<noteq> ''email''"
    by (rule no_email_action[of ?t, THEN conjunct2, rule_format, OF e]) simp
  then show ?thesis using e by (intro conjI)
qed

section \<open>The name of a Call action\<close>

text \<open>
  C3, as the program has it. The Call pattern has no optional \<open>with\<close>: when the Call
  block appends an action, the sentence holds a keyword \<open>call\<close>, \<open>phone\<close> or \<open>ring\<close>,
  then whitespace, then the name at once, and the name is one capitalised word or two
  separated by whitespace; the action has the title \<open>Call\<close> and the name, the sentence
  as description and the name as contact. In the other direction, in a sentence that
  holds one of the three keywords, then whitespace, then a capitalised word, the pattern
  finds a name, and the Call block appends the Call action of that name unless the
  stoplist rejects it.
\<close>

theorem call_name_follows_keyword:
  "(call_block actions sentence (py_lower sentence) = Inr (actions @ [a]) \<and>
    action_type a = ''call'' \<longrightarrow>
      (\<exists>pre kw ws name post.
         sentence = pre @ kw @ ws @ name @ post \<and>
         py_lower kw \<in> {''call'', ''phone'', ''ring''} \<and>
         ws \<noteq> [] \<and> (\<forall>c\<in>set ws. py_isspace c) \<and>
         (cap_word name \<or>
          (\<exists>w1 sp w2. name = w1 @ sp @ w2 \<and> cap_word w1 \<and> sp \<noteq> [] \<and>
                       (\<forall>c\<in>set sp. py_isspace c) \<and> cap_word w2)) \<and>
         a = \<lparr>action_type = ''call'', title = ''Call '' @ name, description = sentence,
               metadata = [(''contact'', name)]\<rparr>)) \<and>
   (sentence = pre' @ kw' @ ws' @ w @ rest \<and> kw' \<in> {''call'', ''phone'', ''ring''} \<and>
    ws' \<noteq> [] \<and> (\<forall>c\<in>set ws'. py_isspace c) \<and> cap_word w \<longrightarrow>
      (\<exists>name. search_group call_re False sentence = Some name \<and>
         (py_lower name \<notin> set [''the'', ''a'', ''my'', ''our'', ''them'', ''back''] \<longrightarrow>
          call_block actions sentence (py_lower sentence) =
            Inr (actions @ [\<lparr>action_type = ''call'', title = ''Call '' @ name,
                   description = sentence, metadata = [(''contact'', name)]\<rparr>]))))"
proof (intro conjI impI)
  assume "call_block actions sentence (py_lower sentence) = Inr (actions @ [a]) \<and>
    action_type a = ''call''"
  then show "\<exists>pre kw ws name post.
         sentence = pre @ kw @ ws @ name @ post \<and>
         py_lower kw \<in> {''call'', ''phone'', ''ring''} \<and>
         ws \<noteq> [] \<and> (\<forall>c\<in>set ws. py_isspace c) \<and>
         (cap_word name \<or>
          (\<exists>w1 sp w2. name = w1 @ sp @ w2 \<and> cap_word w1 \<and> sp \<noteq> [] \<and>
                       (\<forall>c\<in>set sp. py_isspace c) \<and> cap_word w2)) \<and>
         a = \<lparr>action_type = ''call'', title = ''Call '' @ name, description = sentence,
               metadata = [(''contact'', name)]\<rparr>"
    using call_block_name[of actions sentence a] by simp
next
  assume a: "sentence = pre' @ kw' @ ws' @ w @ rest \<and> kw' \<in> {''call'', ''phone'', ''ring''} \<and>
    ws' \<noteq> [] \<and> (\<forall>c\<in>set ws'. py_isspace c) \<and> cap_word w"
  show "\<exists>name. search_group call_re False sentence = Some name \<and>
         (py_lower name \<notin> set [''the'', ''a'', ''my'', ''our'', ''them'', ''back''] \<longrightarrow>
          call_block actions sentence (py_lower sentence) =
            Inr (actions @ [\<lparr>action_type = ''call'', title = ''Call '' @ name,
                   description = sentence, metadata = [(''contact'', name)]\<rparr>]))"
    by (rule call_block_finds[of kw' ws' w sentence pre' rest actions]) (use a in simp_all)
qed

theorem call_name_follows_keyword_witness:
  "call_block [] ''Please call Sarah tomorrow'' (py_lower ''Please call Sarah tomorrow'') =
     Inr [\<lparr>action_type = ''call'', title = ''Call Sarah'',
           description = ''Please call Sarah tomorrow'', metadata = [(''contact'', ''Sarah'')]\<rparr>] \<and>
   (\<exists>pre kw ws name post.
      ''Please call Sarah tomorrow'' = pre @ kw @ ws @ name @ post \<and>
      py_lower kw \<in> {''call'', ''phone'', ''ring''} \<and>
      ws \<noteq> [] \<and> (\<forall>c\<in>set ws. py_isspace c) \<and>
      (cap_word name \<or>
       (\<exists>w1 sp w2. name = w1 @ sp @ w2 \<and> cap_word w1 \<and> sp \<noteq> [] \<and>
                    (\<forall>c\<in>set sp. py_isspace c) \<and> cap_word w2)) \<and>
      \<lparr>action_type = ''call'', title = ''Call Sarah'',
        description = ''Please call Sarah tomorrow'', metadata = [(''contact'', ''Sarah'')]\<rparr> =
      \<lparr>action_type = ''call'', title = ''Call '' @ name,
        description = ''Please call Sarah tomorrow'', metadata = [(''contact'', name)]\<rparr>)"
proof -
  let ?s = "''Please call Sarah tomorrow''"
  let ?a = "\<lparr>action_type = ''call'', title = ''Call Sarah'',
           description = ''Please call Sarah tomorrow'', metadata = [(''contact'', ''Sarah'')]\<rparr>"
  have c: "call_block [] ?s (py_lower ?s) = Inr [?a]" by code_simp
  then have c': "call_block [] ?s (py_lower ?s) = Inr ([] @ [?a])" by (simp only: append_Nil)
  have ty: "action_type ?a = ''call''" by simp
  show ?thesis
    using c call_name_follows_keyword[of "[]" ?s ?a, THEN conjunct1, rule_format, OF conjI[OF c' ty]]
    by (intro conjI)
qed

text \<open>
  C3, as stated, fails: on \<open>Call with Sarah tomorrow.\<close> the pattern finds no name and
  the result is empty, also when the keyword is written in lower case.
\<close>

theorem call_with_counterexample:
  "re_search call_re False ''Call with Sarah tomorrow'' = None \<and>
   extract_actions ''Call with Sarah tomorrow.'' = Inr [] \<and>
   extract_actions ''Please call with Sarah tomorrow.'' = Inr []"
  by code_simp

section \<open>Malformed requests\<close>

text \<open>
  C4, as the program has it. A body that parses to an object without \<open>recording_id\<close> or
  without \<open>audio_url\<close> is answered with status 400 and the body
  \<open>{error: Missing recording_id or audio_url}\<close>. A body that is no JSON makes
  \<open>get_json\<close> raise inside the \<open>try\<close>, and the answer is status 500 with the text of
  the exception under \<open>error\<close>; so is a body that parses to something other than an
  object.
\<close>

theorem transcribe_audio_malformed:
  "(get_json = Inr (PDict kvs) \<and>
      (map_of kvs ''recording_id'' = None \<or> map_of kvs ''audio_url'' = None) \<longrightarrow>
    transcribe_audio get_json process =
      \<lparr>status_code = 400, body = [(''error'', PStr ''Missing recording_id or audio_url'')],
        mimetype = ''application/json''\<rparr>) \<and>
   (get_json = Inl e \<longrightarrow>
    transcribe_audio get_json process =
      \<lparr>status_code = 500, body = [(''error'', PStr e)], mimetype = ''application/json''\<rparr>) \<and>
   (get_json = Inr v \<and> type_name v \<noteq> ''dict'' \<longrightarrow>
    status_code (transcribe_audio get_json process) = 500 \<and>
    map fst (body (transcribe_audio get_json process)) = [''error''])"
proof (intro conjI impI)
  assume "get_json = Inr (PDict kvs) \<and>
      (map_of kvs ''recording_id'' = None \<or> map_of kvs ''audio_url'' = None)"
  then show "transcribe_audio get_json process =
      \<lparr>status_code = 400, body = [(''error'', PStr ''Missing recording_id or audio_url'')],
        mimetype = ''application/json''\<rparr>"
    by (auto simp: transcribe_audio_def)
next
  assume "get_json = Inl e"
  then show "transcribe_audio get_json process =
      \<lparr>status_code = 500, body = [(''error'', PStr e)], mimetype = ''application/json''\<rparr>"
    by (simp add: transcribe_audio_def error_response_def)
next
  assume a: "get_json = Inr v \<and> type_name v \<noteq> ''dict''"
  then show "status_code (transcribe_audio get_json process) = 500"
    by (cases v) (simp_all add: transcribe_audio_def error_response_def)
  from a show "map fst (body (transcribe_audio get_json process)) = [''error'']"
    by (cases v) (simp_all add: transcribe_audio_def error_response_def)
qed

theorem transcribe_audio_malformed_witness:
  "transcribe_audio (Inr (PDict [(''recording_id'', PStr ''r1'')])) process_ok =
     \<lparr>status_code = 400, body = [(''error'', PStr ''Missing recording_id or audio_url'')],
       mimetype = ''application/json''\<rparr> \<and>
   transcribe_audio (Inl ''Expecting value'') process_ok =
     \<lparr>status_code = 500, body = [(''error'', PStr ''Expecting value'')],
       mimetype = ''application/json''\<rparr> \<and>
   status_code (transcribe_audio (Inr (PList [])) process_ok) = 500"
proof -
  have a: "Inr (PDict [(''recording_id'', PStr ''r1'')]) = Inr (PDict [(''recording_id'', PStr ''r1'')]) \<and>
      (map_of [(''recording_id'', PStr ''r1'')] ''recording_id'' = None \<or>
       map_of [(''recording_id'', PStr ''r1'')] ''audio_url'' = None)"
    by simp
  have b: "Inr (PList []) = Inr (PList []) \<and> type_name (PList []) \<noteq> ''dict''" by simp
  show ?thesis
    using
      transcribe_audio_malformed[of "Inr (PDict [(''recording_id'', PStr ''r1'')])"
        "[(''recording_id'', PStr ''r1'')]" process_ok "[]" PNone, THEN conjunct1, rule_format, OF a]
      transcribe_audio_malformed[of "Inl ''Expecting value''" "[]" process_ok "''Expecting value''" PNone,
        THEN conjunct2, THEN conjunct1, rule_format, OF refl]
      transcribe_audio_malformed[of "Inr (PList [])" "[]" process_ok "[]" "PList []",
        THEN conjunct2, THEN conjunct2, rule_format, OF b, THEN conjunct1]
    by (intro conjI)
qed

text \<open>
  C4, as stated, fails: a body that is no JSON is answered with status 500, not 400.
\<close>

theorem invalid_json_counterexample:
  "transcribe_audio (Inl ''Expecting value: line 1 column 1 (char 0)'') process_ok =
     \<lparr>status_code = 500, body = [(''error'', PStr ''Expecting value: line 1 column 1 (char 0)'')],
       mimetype = ''application/json''\<rparr> \<and>
   status_code (transcribe_audio (Inl ''Expecting value: line 1 column 1 (char 0)'') process_ok)
     \<noteq> 400"
  by (simp add: transcribe_audio_def error_response_def)

section \<open>One action per sentence, first rule first\<close>

text \<open>
  C5. One iteration of the loop appends the candidates of the trimmed sentence, which are
  at most one action: that of the first of the Email, Call, Meeting and Task matchers, in
  this order, that gives one. A block whose pattern finds nothing hands the sentence to
  the next block, whatever its keyword test said.
\<close>

theorem loop_body_first_match:
  "loop_body actions s = Inr (actions @ candidates (py_strip s)) \<and>
   length (candidates sentence) \<le> 1 \<and>
   candidates sentence =
     (case email_rule sentence of Some a \<Rightarrow> [a] | None \<Rightarrow>
      (case call_rule sentence of Some a \<Rightarrow> [a] | None \<Rightarrow>
       (case meeting_rule sentence of Some a \<Rightarrow> [a] | None \<Rightarrow>
        (case task_rule sentence of Some a \<Rightarrow> [a] | None \<Rightarrow> [])))) \<and>
   (re_search email_re False sentence = None \<longrightarrow>
      email_block actions sentence lower = call_block actions sentence lower) \<and>
   (re_search call_re False sentence = None \<longrightarrow>
      call_block actions sentence lower = meeting_block actions sentence lower) \<and>
   (re_search meeting_re False sentence = None \<longrightarrow>
      meeting_block actions sentence lower = task_block actions sentence lower)"
proof (intro conjI impI)
  show "loop_body actions s = Inr (actions @ candidates (py_strip s))" by (rule loop_body_eq)
  show "length (candidates sentence) \<le> 1" by (rule length_candidates)
  show "candidates sentence =
     (case email_rule sentence of Some a \<Rightarrow> [a] | None \<Rightarrow>
      (case call_rule sentence of Some a \<Rightarrow> [a] | None \<Rightarrow>
       (case meeting_rule sentence of Some a \<Rightarrow> [a] | None \<Rightarrow>
        (case task_rule sentence of Some a \<Rightarrow> [a] | None \<Rightarrow> []))))"
    by (rule candidates_unfold)
next
  assume "re_search email_re False sentence = None"
  then show "email_block actions sentence lower = call_block actions sentence lower"
    by (simp add: email_block_def)
next
  assume "re_search call_re False sentence = None"
  then show "call_block actions sentence lower = meeting_block actions sentence lower"
    by (simp add: call_block_def)
next
  assume "re_search meeting_re False sentence = None"
  then show "meeting_block actions sentence lower = task_block actions sentence lower"
    by (simp add: meeting_block_def)
qed

theorem loop_body_first_match_witness:
  "py_in ''email'' (py_lower ''Please email Bob and call Sarah'') \<and>
   re_search email_re False ''Please email Bob and call Sarah'' = None \<and>
   email_block [] ''Please email Bob and call Sarah'' (py_lower ''Please email Bob and call Sarah'') =
     call_block [] ''Please email Bob and call Sarah'' (py_lower ''Please email Bob and call Sarah'') \<and>
   loop_body [] '' Please email Bob and call Sarah'' =
     Inr [\<lparr>action_type = ''call'', title = ''Call Sarah'',
           description = ''Please email Bob and call Sarah'',
           metadata = [(''contact'', ''Sarah'')]\<rparr>]"
proof -
  let ?s = "''Please email Bob and call Sarah''"
  have g: "py_in ''email'' (py_lower ?s)" by code_simp
  have n: "re_search email_re False ?s = None" by code_simp
  have f: "email_block [] ?s (py_lower ?s) = call_block [] ?s (py_lower ?s)"
    by (rule loop_body_first_match[of "[]" "[]" ?s "py_lower ?s",
          THEN conjunct2, THEN conjunct2, THEN conjunct2, THEN conjunct1, rule_format, OF n])
  have l: "loop_body [] '' Please email Bob and call Sarah'' =
     Inr [\<lparr>action_type = ''call'', title = ''Call Sarah'',
           description = ''Please email Bob and call Sarah'',
           metadata = [(''contact'', ''Sarah'')]\<rparr>]"
    by code_simp
  show ?thesis using g n f l by (intro conjI)
qed

section \<open>Deduplication\<close>

text \<open>
  C6. The second loop returns a subsequence of its input, in the input's order, with
  pairwise different lower-case titles; for every lower-case title \<open>k\<close> the entries of
  the result with that title are exactly the first action of the input that bears it
  (none when no action bears it). The result of \<open>extract_actions\<close> is the second loop
  applied to the candidates of all the sentences in order, so of two sentences whose
  candidates share a title up to case the first alone is in the result.
\<close>

theorem deduplicate_first_occurrences:
  "subseq (deduplicate actions) actions \<and>
   distinct (map title_key (deduplicate actions)) \<and>
   filter (\<lambda>b. title_key b = k) (deduplicate actions) =
     (case find (\<lambda>b. title_key b = k) actions of None \<Rightarrow> [] | Some f \<Rightarrow> [f]) \<and>
   extract_actions transcript =
     Inr (deduplicate (concat (map (\<lambda>s. candidates (py_strip s)) (sentences_of transcript))))"
  unfolding deduplicate_def
  using dedup_loop_subseq[of "{}" actions] dedup_loop_distinct[of "{}" actions]
    dedup_loop_first[of k "{}" actions] extract_actions_eq[of transcript, unfolded deduplicate_def]
  by simp

theorem deduplicate_first_occurrences_witness:
  "extract_actions ''I must finish the report! Really, I MUST FINISH THE REPORT?'' =
     Inr [\<lparr>action_type = ''task'', title = ''finish the report'',
           description = ''I must finish the report'', metadata = []\<rparr>] \<and>
   filter (\<lambda>b. title_key b = ''finish the report'')
     (deduplicate
       [\<lparr>action_type = ''task'', title = ''finish the report'',
           description = ''I must finish the report'', metadata = []\<rparr>,
        \<lparr>action_type = ''task'', title = ''FINISH THE REPORT'',
           description = ''Really, I MUST FINISH THE REPORT'', metadata = []\<rparr>]) =
     [\<lparr>action_type = ''task'', title = ''finish the report'',
           description = ''I must finish the report'', metadata = []\<rparr>]"
proof -
  let ?a = "\<lparr>action_type = ''task'', title = ''finish the report'',
           description = ''I must finish the report'', metadata = []\<rparr>"
  let ?b = "\<lparr>action_type = ''task'', title = ''FINISH THE REPORT'',
           description = ''Really, I MUST FINISH THE REPORT'', metadata = []\<rparr>"
  have e: "extract_actions ''I must finish the report! Really, I MUST FINISH THE REPORT?'' = Inr [?a]"
    by code_simp
  have k: "(case find (\<lambda>b. title_key b = ''finish the report'') [?a, ?b] of
              None \<Rightarrow> [] | Some f \<Rightarrow> [f]) = [?a]"
    by code_simp
  have "filter (\<lambda>b. title_key b = ''finish the report'') (deduplicate [?a, ?b]) = [?a]"
    using deduplicate_first_occurrences[of "[?a, ?b]" "''finish the report''" "[]",
        THEN conjunct2, THEN conjunct2, THEN conjunct1]
    by (simp only: k)
  then show ?thesis using e by (intro conjI)
qed

section \<open>The invariant of the actions\<close>

text \<open>
  C7. Every action of every result has a title that is not empty, one of the four types
  and the metadata keys of its type: \<open>recipient\<close> for email, \<open>contact\<close> for call and
  meeting, none for task.
\<close>

theorem actions_valid:
  assumes "extract_actions transcript = Inr actions" and "a \<in> set actions"
  shows "valid_action a"
  using extract_actions_members[OF assms] by simp

theorem actions_valid_witness:
  "extract_actions ''Schedule a meeting with Bob Smith. Also call Bob. I must finish the report!'' =
     Inr [\<lparr>action_type = ''meeting'', title = ''Meeting with Bob Smith'',
            description = ''Schedule a meeting with Bob Smith'',
            metadata = [(''contact'', ''Bob Smith'')]\<rparr>,
          \<lparr>action_type = ''call'', title = ''Call Bob'', description = ''Also call Bob'',
            metadata = [(''contact'', ''Bob'')]\<rparr>,
          \<lparr>action_type = ''task'', title = ''finish the report'',
            description = ''I must finish the report'', metadata = []\<rparr>] \<and>
   valid_action \<lparr>action_type = ''task'', title = ''finish the report'',
            description = ''I must finish the report'', metadata = []\<rparr>"
proof -
  let ?t = "''Schedule a meeting with Bob Smith. Also call Bob. I must finish the report!''"
  let ?a = "\<lparr>action_type = ''task'', title = ''finish the report'',
            description = ''I must finish the report'', metadata = []\<rparr>"
  have e: "extract_actions ?t =
     Inr [\<lparr>action_type = ''meeting'', title = ''Meeting with Bob Smith'',
            description = ''Schedule a meeting with Bob Smith'',
            metadata = [(''contact'', ''Bob Smith'')]\<rparr>,
          \<lparr>action_type = ''call'', title = ''Call Bob'', description = ''Also call Bob'',
            metadata = [(''contact'', ''Bob'')]\<rparr>, ?a]"
    by code_simp
  have "valid_action ?a" by (rule actions_valid[OF e]) simp
  then show ?thesis using e by (intro conjI)
qed

section \<open>Blank transcripts\<close>

text \<open>
  C8. A transcript that is empty or holds whitespace only gives the empty list, and no
  error.
\<close>

theorem blank_transcript:
  assumes "\<forall>c\<in>set transcript. py_isspace c"
  shows "extract_actions transcript = Inr []"
proof -
  have "candidates (py_strip s) = []" if "s \<in> set (sentences_of transcript)" for s
    using sentences_of_spaces[OF assms that] candidates_Nil by simp
  then have "concat (map (\<lambda>s. candidates (py_strip s)) (sentences_of transcript)) = []"
    by simp
  then show ?thesis unfolding extract_actions_eq deduplicate_def by (simp only: dedup_loop.simps)
qed

theorem blank_transcript_witness:
  "extract_actions [CHR '' '', CHR 0x09, CHR 0x0A, CHR '' ''] = Inr [] \<and> extract_actions [] = Inr []"
proof -
  have "\<forall>c\<in>set [CHR '' '', CHR 0x09, CHR 0x0A, CHR '' '']. py_isspace c"
    by (simp add: py_isspace_def in_range_def code_def)
  then show ?thesis
    using blank_transcript[of "[CHR '' '', CHR 0x09, CHR 0x0A, CHR '' '']"] blank_transcript[of "[]"]
    by simp
qed

section \<open>Totality\<close>

text \<open>
  C9. On every transcript \<open>extract_actions\<close> returns a list of actions: the one failure
  of the model, a \<open>group(1)\<close> that is \<open>None\<close>, never happens, since every pattern sets
  group 1 on every match. All the functions of the model are total recursive functions,
  so the loops end.
\<close>

theorem extract_actions_total: "\<exists>actions. extract_actions transcript = Inr actions"
  by (simp add: extract_actions_eq)

theorem extract_actions_total_witness:
  "(\<exists>actions. extract_actions ''Ring Bob? no, phone Alice Jones'' = Inr actions) \<and>
   extract_actions ''Ring Bob? no, phone Alice Jones'' =
     Inr [\<lparr>action_type = ''call'', title = ''Call Alice Jones'',
           description = ''no, phone Alice Jones'',
           metadata = [(''contact'', ''Alice Jones'')]\<rparr>]"
proof -
  have "extract_actions ''Ring Bob? no, phone Alice Jones'' =
     Inr [\<lparr>action_type = ''call'', title = ''Call Alice Jones'',
           description = ''no, phone Alice Jones'',
           metadata = [(''contact'', ''Alice Jones'')]\<rparr>]"
    by code_simp
  then show ?thesis
    using extract_actions_total[of "''Ring Bob? no, phone Alice Jones''"] by (intro conjI)
qed

section \<open>The stoplist of the Call rule\<close>

text \<open>
  C10. The transcript \<open>Call the doctor tomorrow.\<close> gives the empty list. When the name
  that the Call pattern finds has a lower-case form in the stoplist, the Call matcher
  declines and the Call block hands the sentence to the Meeting block.
\<close>

theorem stoplist_falls_through:
  "extract_actions ''Call the doctor tomorrow.'' = Inr [] \<and>
   (re_search call_re False sentence = Some (Match (Some name)) \<and>
    py_lower name \<in> set [''the'', ''a'', ''my'', ''our'', ''them'', ''back''] \<longrightarrow>
      call_rule sentence = None \<and>
      call_block actions sentence lower = meeting_block actions sentence lower)"
proof (intro conjI impI)
  show "extract_actions ''Call the doctor tomorrow.'' = Inr []" by code_simp
next
  assume a: "re_search call_re False sentence = Some (Match (Some name)) \<and>
    py_lower name \<in> set [''the'', ''a'', ''my'', ''our'', ''them'', ''back'']"
  then show "call_rule sentence = None"
    by (simp add: call_rule_def search_group_def)
  from a show "call_block actions sentence lower = meeting_block actions sentence lower"
    by (simp add: call_block_def)
qed

theorem stoplist_falls_through_witness:
  "re_search call_re False ''please call The office and schedule Bob'' = Some (Match (Some ''The'')) \<and>
   call_rule ''please call The office and schedule Bob'' = None \<and>
   call_block [] ''please call The office and schedule Bob''
       (py_lower ''please call The office and schedule Bob'') =
     Inr [\<lparr>action_type = ''meeting'', title = ''Meeting with Bob'',
           description = ''please call The office and schedule Bob'',
           metadata = [(''contact'', ''Bob'')]\<rparr>]"
proof -
  let ?s = "''please call The office and schedule Bob''"
  have r: "re_search call_re False ?s = Some (Match (Some ''The''))" by code_simp
  have st: "py_lower ''The'' \<in> set [''the'', ''a'', ''my'', ''our'', ''them'', ''back'']"
    by code_simp
  note t = stoplist_falls_through[of ?s "''The''" "[]" "py_lower ?s",
      THEN conjunct2, rule_format, OF conjI[OF r st]]
  have m: "meeting_block [] ?s (py_lower ?s) =
     Inr [\<lparr>action_type = ''meeting'', title = ''Meeting with Bob'',
           description = ?s, metadata = [(''contact'', ''Bob'')]\<rparr>]"
    by code_simp
  show ?thesis using r t[THEN conjunct1] t[THEN conjunct2, unfolded m] by (intro conjI)
qed

end
